theory Spec2Isabelle
  imports Main "HOL-Library.Multiset"
begin

section \<open>The wave-based crawler of main.py\<close>

subsection \<open>Data\<close>

type_synonym url = string

text \<open>
  What \<open>crawl_one_class\<close> raises (a Selenium error, a parse error) is an instance of
  Python's \<open>Exception\<close>, and \<open>future.result()\<close> raises it again in the main thread.
  The handler of \<open>crawl_all_classes\<close> catches that class, so one constructor carrying
  the message is all the model needs.
\<close>

datatype exn = Exception string

text \<open>One row of the properties table: the dictionary with the keys
  \<open>name\<close>, \<open>data_type\<close> and \<open>definition\<close>.\<close>

record property_entry =
  prop_name :: string
  prop_data_type :: string
  prop_definition :: string

text \<open>One row of the incoming relations table, as \<open>extract_incoming_relations\<close> builds it.\<close>

record incoming_relation =
  relates_with :: string
  direction :: string
  uri :: string
  rel_type :: string
  dictionary :: string
  version_status :: string

text \<open>The dictionary returned by \<open>parse_html\<close>.\<close>

record parsed_page =
  class_name :: string
  code :: string
  child_classes :: "string list"
  relations :: "string list"
  incoming_relations :: "incoming_relation list"

text \<open>The same dictionary after \<open>crawl_one_class\<close> has stored \<open>url\<close> and
  \<open>properties\<close> in it: the record appended to \<open>results\<close>.\<close>

record class_record = parsed_page +
  url :: url
  properties :: "property_entry list"

text \<open>
  The browser session of \<open>crawl_one_class\<close> (Selenium, \<open>extract_all_properties\<close>,
  \<open>parse_html\<close> on the page source) is outside the model: it is a parameter that maps a
  URL to the exception it raised or to the extracted properties and the parsed page.
\<close>

type_synonym browser = "url \<Rightarrow> exn + property_entry list \<times> parsed_page"

subsection \<open>crawl_one_class\<close>

text \<open>\<open>if child_url.startswith("/"): child_url = "https://identifier.buildingsmart.org" + child_url\<close>\<close>

definition absolute_url :: "string \<Rightarrow> url" where
  "absolute_url child_url =
     (if take 1 child_url = ''/'' then ''https://identifier.buildingsmart.org'' @ child_url
      else child_url)"

definition crawl_one_class :: "browser \<Rightarrow> url \<Rightarrow> exn + class_record \<times> url list" where
  "crawl_one_class browse u =
     (case browse u of
        Inl e \<Rightarrow> Inl e
      | Inr (props, parsed) \<Rightarrow>
          Inr (parsed_page.extend parsed (class_record.fields u props),
               map absolute_url (child_classes parsed)))"

subsection \<open>crawl_all_classes\<close>

record crawl_state =
  visited :: "url set"
  results :: "class_record list"
  to_crawl :: "url list"

text \<open>
  The dictionary comprehension submits one future per element of \<open>to_crawl\<close> that is not
  in \<open>visited\<close>; every \<open>executor.submit\<close> returns a fresh future, so the dictionary has
  one entry per occurrence. \<open>futures\<close> lists the URLs of these entries in submission order.
\<close>

definition futures :: "crawl_state \<Rightarrow> url list" where
  "futures st = filter (\<lambda>u. u \<notin> visited st) (to_crawl st)"

text \<open>The inner loop \<open>for child_url in child_urls: if child_url not in visited: to_crawl.append(child_url)\<close>.\<close>

definition add_child :: "crawl_state \<Rightarrow> url \<Rightarrow> crawl_state" where
  "add_child st child_url =
     (if child_url \<notin> visited st then st\<lparr>to_crawl := to_crawl st @ [child_url]\<rparr> else st)"

text \<open>
  The body of \<open>for future in as_completed(futures)\<close> for the future of URL \<open>u\<close>: on a
  result, append the record, mark the URL and queue the children; on an exception only a
  message is printed, the three variables are left as they are.
\<close>

definition process_future :: "browser \<Rightarrow> crawl_state \<Rightarrow> url \<Rightarrow> crawl_state" where
  "process_future browse st u =
     (case crawl_one_class browse u of
        Inl e \<Rightarrow> st
      | Inr (data, child_urls) \<Rightarrow>
          foldl add_child
            (st\<lparr>results := results st @ [data], visited := insert u (visited st)\<rparr>)
            child_urls)"

text \<open>
  One iteration of the \<open>while\<close> loop. \<open>as_completed\<close> yields the futures in the order in
  which they finish, which the program does not control: the parameter \<open>completion\<close> is
  that order, a rearrangement of the submitted URLs.
\<close>

definition wave_step :: "browser \<Rightarrow> (url list \<Rightarrow> url list) \<Rightarrow> crawl_state \<Rightarrow> crawl_state" where
  "wave_step browse completion st =
     foldl (process_future browse) (st\<lparr>to_crawl := []\<rparr>) (completion (futures st))"

text \<open>A completion order rearranges the futures it is given and neither drops nor invents one.\<close>

definition fair :: "(nat \<Rightarrow> url list \<Rightarrow> url list) \<Rightarrow> bool" where
  "fair as_completed \<longleftrightarrow> (\<forall>k w. mset (as_completed k w) = mset w)"

text \<open>
  The loop \<open>while to_crawl:\<close>, with \<open>k\<close> the number of the wave about to run. The loop may
  run forever, so its value is an option: \<open>None\<close> is "does not return".
\<close>

partial_function (option) crawl_loop ::
  "browser \<Rightarrow> (nat \<Rightarrow> url list \<Rightarrow> url list) \<Rightarrow> nat \<Rightarrow> crawl_state \<Rightarrow> crawl_state option" where
  "crawl_loop browse as_completed k st =
     (if to_crawl st = [] then Some st
      else crawl_loop browse as_completed (Suc k) (wave_step browse (as_completed k) st))"

declare crawl_loop.simps [code]

definition initial_state :: "url \<Rightarrow> crawl_state" where
  "initial_state start_url = \<lparr>visited = {}, results = [], to_crawl = [start_url]\<rparr>"

definition crawl_all_classes ::
  "browser \<Rightarrow> (nat \<Rightarrow> url list \<Rightarrow> url list) \<Rightarrow> url \<Rightarrow> class_record list option" where
  "crawl_all_classes browse as_completed start_url =
     map_option results (crawl_loop browse as_completed 0 (initial_state start_url))"

text \<open>The state at the head of the loop after \<open>n\<close> iterations (unchanged once the loop has left).\<close>

primrec wave_state ::
  "browser \<Rightarrow> (nat \<Rightarrow> url list \<Rightarrow> url list) \<Rightarrow> crawl_state \<Rightarrow> nat \<Rightarrow> crawl_state" where
  "wave_state browse as_completed st 0 = st"
| "wave_state browse as_completed st (Suc n) =
     (let s = wave_state browse as_completed st n
      in if to_crawl s = [] then s else wave_step browse (as_completed n) s)"


text \<open>
  The state inside iteration \<open>n\<close> after \<open>i\<close> of its futures have been handled:
  \<open>wave_point\<close> for one iteration, \<open>crawl_point\<close> for a whole run from \<open>start_url\<close>.
  Every state the three variables take during a run is one of these.
\<close>

definition wave_point ::
  "browser \<Rightarrow> (url list \<Rightarrow> url list) \<Rightarrow> crawl_state \<Rightarrow> nat \<Rightarrow> crawl_state" where
  "wave_point browse completion st i =
     foldl (process_future browse) (st\<lparr>to_crawl := []\<rparr>) (take i (completion (futures st)))"

definition crawl_point ::
  "browser \<Rightarrow> (nat \<Rightarrow> url list \<Rightarrow> url list) \<Rightarrow> url \<Rightarrow> nat \<Rightarrow> nat \<Rightarrow> crawl_state" where
  "crawl_point browse as_completed start_url n i =
     wave_point browse (as_completed n)
       (wave_state browse as_completed (initial_state start_url) n) i"

subsection \<open>Vocabulary for the statements\<close>

text \<open>Whether the fetch of a URL returns, and what it returns.\<close>

definition succeeds :: "browser \<Rightarrow> url \<Rightarrow> bool" where
  "succeeds browse u \<longleftrightarrow> \<not> isl (browse u)"

definition children :: "browser \<Rightarrow> url \<Rightarrow> url list" where
  "children browse u =
     (case crawl_one_class browse u of Inl e \<Rightarrow> [] | Inr (data, child_urls) \<Rightarrow> child_urls)"

definition record_of :: "browser \<Rightarrow> url \<Rightarrow> class_record list" where
  "record_of browse u =
     (case crawl_one_class browse u of Inl e \<Rightarrow> [] | Inr (data, child_urls) \<Rightarrow> [data])"

text \<open>
  Two states agree on everything the rest of a run depends on: the registry, the
  records collected so far and the futures the next iteration submits, the last two
  up to order.
\<close>

definition same_frontier :: "crawl_state \<Rightarrow> crawl_state \<Rightarrow> bool" where
  "same_frontier s t \<longleftrightarrow>
     visited s = visited t \<and> mset (results s) = mset (results t) \<and>
     mset (futures s) = mset (futures t)"

section \<open>The recursive crawler of data.py\<close>

subsection \<open>Responses of the bSDD API\<close>

text \<open>
  The JSON objects are read with \<open>.get(key, default)\<close>: a field that may be missing is an
  option, \<open>None\<close> for the missing key. The two keys of a child reference are read with
  \<open>child["uri"]\<close> and \<open>child["code"]\<close> and are always there.
\<close>

definition dict_get :: "'a option \<Rightarrow> 'a \<Rightarrow> 'a" where
  "dict_get v fallback = (case v of None \<Rightarrow> fallback | Some x \<Rightarrow> x)"

record class_property =
  cp_propertySet :: "string option"
  cp_name :: "string option"
  cp_dataType :: "string option"
  cp_definition :: "string option"

record raw_relation =
  cr_relationType :: "string option"
  cr_classUri :: "string option"
  cr_className :: "string option"
  cr_dictionaryUri :: "string option"

record child_reference =
  child_uri :: string
  child_code :: string

record class_data =
  cd_name :: "string option"
  cd_code :: "string option"
  cd_uri :: "string option"
  childClassReferences :: "child_reference list option"

record relations_data =
  classRelations :: "raw_relation list option"
  rd_classUri :: "string option"
  areReversedRelations :: "bool option"
  totalCount :: "int option"
  rd_offset :: "int option"
  rd_count :: "int option"

text \<open>
  \<open>requests.get\<close> followed by \<open>raise_for_status\<close> and \<open>json\<close> either raises a
  \<open>requests.RequestException\<close> or gives the decoded object. The three endpoints are
  parameters, keyed by the class code the request URI is built from; so is
  \<open>urllib.parse.urlparse(_).path\<close>.
\<close>

datatype request_exception = RequestException string

record services =
  get_class :: "string \<Rightarrow> request_exception + class_data"
  get_properties :: "string \<Rightarrow> request_exception + class_property list option"
  get_relations :: "string \<Rightarrow> request_exception + relations_data"
  urlparse_path :: "string \<Rightarrow> string"

subsection \<open>The record built for one class\<close>

record relation_entry =
  relation_type :: string
  class_uri :: string
  rel_class_name :: string
  dictionary_uri :: string

record relations_info =
  info_class_uri :: string
  are_reversed_relations :: bool
  total_count :: int
  info_offset :: int
  info_count :: int

text \<open>\<open>properties\<close> is a dictionary from category to rows; Python keeps the keys in
  insertion order, so it is an association list with distinct keys.\<close>

record class_obj =
  obj_class_name :: string
  obj_code :: string
  obj_child_classes :: "string list"
  obj_relations :: "relation_entry list"
  obj_incoming_relations :: "incoming_relation list"
  obj_url :: string
  obj_properties :: "(string \<times> property_entry list) list"
  obj_relations_info :: relations_info

text \<open>
  \<open>if category not in properties_by_category: properties_by_category[category] = []\<close>
  followed by \<open>properties_by_category[category].append(row)\<close>.
\<close>

fun append_to_category ::
  "(string \<times> property_entry list) list \<Rightarrow> string \<Rightarrow> property_entry \<Rightarrow>
   (string \<times> property_entry list) list" where
  "append_to_category [] category row = [(category, [row])]"
| "append_to_category ((k, rows) # d) category row =
     (if k = category then (k, rows @ [row]) # d
      else (k, rows) # append_to_category d category row)"

text \<open>The body of \<open>for p in properties_data\<close>; \<open>not category\<close> holds for the empty string.\<close>

definition group_property ::
  "(string \<times> property_entry list) list \<Rightarrow> class_property \<Rightarrow>
   (string \<times> property_entry list) list" where
  "group_property d p =
     (let category = dict_get (cp_propertySet p) ''Attributes'';
          category = (if category = [] then ''Attributes'' else category)
      in append_to_category d category
           \<lparr>prop_name = dict_get (cp_name p) [],
            prop_data_type = dict_get (cp_dataType p) [],
            prop_definition = dict_get (cp_definition p) []\<rparr>)"

text \<open>Lines 49 to 67: the grouping loop and the placeholder for an empty dictionary.\<close>

definition properties_by_category ::
  "class_property list \<Rightarrow> (string \<times> property_entry list) list" where
  "properties_by_category properties_data =
     (let d = foldl group_property [] properties_data
      in if d = [] then
           [(''Attributes'',
             [\<lparr>prop_name = ''Attributes'', prop_data_type = ''not in bSDD'',
               prop_definition = []\<rparr>])]
         else d)"

definition class_relations :: "relations_data \<Rightarrow> relation_entry list" where
  "class_relations rd =
     map (\<lambda>relation.
            \<lparr>relation_type = dict_get (cr_relationType relation) [],
             class_uri = dict_get (cr_classUri relation) [],
             rel_class_name = dict_get (cr_className relation) [],
             dictionary_uri = dict_get (cr_dictionaryUri relation) []\<rparr>)
       (dict_get (classRelations rd) [])"

definition build_obj ::
  "(string \<Rightarrow> string) \<Rightarrow> class_data \<Rightarrow> class_property list \<Rightarrow> relations_data \<Rightarrow> class_obj" where
  "build_obj path cd properties_data rd =
     \<lparr>obj_class_name = dict_get (cd_name cd) [],
      obj_code = dict_get (cd_code cd) [],
      obj_child_classes =
        map (\<lambda>child. path (child_uri child)) (dict_get (childClassReferences cd) []),
      obj_relations = class_relations rd,
      obj_incoming_relations = [],
      obj_url = dict_get (cd_uri cd) [],
      obj_properties = properties_by_category properties_data,
      obj_relations_info =
        \<lparr>info_class_uri = dict_get (rd_classUri rd) [],
         are_reversed_relations = dict_get (areReversedRelations rd) False,
         total_count = dict_get (totalCount rd) 0,
         info_offset = dict_get (rd_offset rd) 0,
         info_count = dict_get (rd_count rd) 0\<rparr>\<rparr>"

subsection \<open>fetch_class and fetch_ifc_data\<close>

record fetch_state =
  seen :: "string set"
  outputs :: "class_obj list"

text \<open>
  \<open>fetch_class\<close> calls itself for every child, inside its own \<open>try\<close>. The first argument
  bounds the depth of these calls (Python's own bound is its recursion limit); \<open>None\<close>
  is a run that needs more. \<open>seen\<close> and \<open>outputs\<close> are the closure's variables
  \<open>visited\<close> and \<open>output\<close>; the class code enters \<open>seen\<close> before the first request
  is made. A \<open>RequestException\<close> of any of the three requests ends the call with the
  record not appended.
\<close>

fun fetch_class :: "nat \<Rightarrow> services \<Rightarrow> string \<Rightarrow> fetch_state \<Rightarrow> fetch_state option"
  and fetch_children :: "nat \<Rightarrow> services \<Rightarrow> string list \<Rightarrow> fetch_state \<Rightarrow> fetch_state option" where
  "fetch_class 0 api class_code st = None"
| "fetch_class (Suc depth) api class_code st =
     (if class_code \<in> seen st then Some st
      else
        let st1 = st\<lparr>seen := insert class_code (seen st)\<rparr>
        in case get_class api class_code of
             Inl e \<Rightarrow> Some st1
           | Inr cd \<Rightarrow>
               (case get_properties api class_code of
                  Inl e \<Rightarrow> Some st1
                | Inr props \<Rightarrow>
                    (case get_relations api class_code of
                       Inl e \<Rightarrow> Some st1
                     | Inr rd \<Rightarrow>
                         fetch_children depth api
                           (map child_code (dict_get (childClassReferences cd) []))
                           (st1\<lparr>outputs := outputs st1 @
                              [build_obj (urlparse_path api) cd (dict_get props []) rd]\<rparr>))))"
| "fetch_children depth api [] st = Some st"
| "fetch_children depth api (c # cs) st =
     (case fetch_class depth api c st of
        None \<Rightarrow> None
      | Some st' \<Rightarrow> fetch_children depth api cs st')"

definition fetch_ifc_data :: "nat \<Rightarrow> services \<Rightarrow> string \<Rightarrow> class_obj list option" where
  "fetch_ifc_data depth api start_class =
     map_option outputs (fetch_class depth api start_class \<lparr>seen = {}, outputs = []\<rparr>)"


section \<open>Example sites\<close>

text \<open>A page that parses to the given name and child links and has no table rows.\<close>

definition page_with :: "string \<Rightarrow> string list \<Rightarrow> property_entry list \<times> parsed_page" where
  "page_with n cs =
     ([], \<lparr>class_name = n, code = n, child_classes = cs, relations = [],
           incoming_relations = []\<rparr>)"

text \<open>Root has the children A and B, A has the child C, B has none, C links back to Root.\<close>

definition cycle_site :: browser where
  "cycle_site u =
     (if u = ''Root'' then Inr (page_with ''Root'' [''A'', ''B''])
      else if u = ''A'' then Inr (page_with ''A'' [''C''])
      else if u = ''B'' then Inr (page_with ''B'' [])
      else if u = ''C'' then Inr (page_with ''C'' [''Root''])
      else Inl (Exception ''not found''))"

text \<open>Root has the children A and B, and both of them list Z.\<close>

definition diamond_site :: browser where
  "diamond_site u =
     (if u = ''Root'' then Inr (page_with ''Root'' [''A'', ''B''])
      else if u = ''A'' then Inr (page_with ''A'' [''Z''])
      else if u = ''B'' then Inr (page_with ''B'' [''Z''])
      else if u = ''Z'' then Inr (page_with ''Z'' [])
      else Inl (Exception ''not found''))"

text \<open>Root has the children X and S; the page of X never loads, and S lists X.\<close>

definition retry_site :: browser where
  "retry_site u =
     (if u = ''Root'' then Inr (page_with ''Root'' [''X'', ''S''])
      else if u = ''S'' then Inr (page_with ''S'' [''X''])
      else Inl (Exception ''timeout''))"

text \<open>Two completion orders: as submitted, and the last submitted first.\<close>

definition in_order :: "nat \<Rightarrow> url list \<Rightarrow> url list" where
  "in_order k w = w"

definition last_first :: "nat \<Rightarrow> url list \<Rightarrow> url list" where
  "last_first k w = rev w"

text \<open>The same two graphs as the API serves them.\<close>

definition api_class :: "string \<Rightarrow> string list \<Rightarrow> class_data" where
  "api_class c cs =
     \<lparr>cd_name = Some c, cd_code = Some c, cd_uri = Some (''/class/'' @ c),
      childClassReferences =
        Some (map (\<lambda>k. \<lparr>child_uri = ''/class/'' @ k, child_code = k\<rparr>) cs)\<rparr>"

text \<open>The remaining endpoints: only A has a property, and it names no property set.\<close>

definition api_for :: "(string \<Rightarrow> request_exception + class_data) \<Rightarrow> services" where
  "api_for classes =
     \<lparr>get_class = classes,
      get_properties = (\<lambda>c.
        if c = ''A'' then
          Inr (Some [\<lparr>cp_propertySet = None, cp_name = Some ''GlobalId'',
                      cp_dataType = Some ''String'', cp_definition = None\<rparr>])
        else Inr (Some [])),
      get_relations = (\<lambda>c.
        Inr \<lparr>classRelations = None, rd_classUri = None, areReversedRelations = None,
             totalCount = None, rd_offset = None, rd_count = None\<rparr>),
      urlparse_path = (\<lambda>u. u)\<rparr>"

definition cycle_api :: services where
  "cycle_api =
     api_for (\<lambda>c.
       if c = ''Root'' then Inr (api_class ''Root'' [''A'', ''B''])
       else if c = ''A'' then Inr (api_class ''A'' [''C''])
       else if c = ''B'' then Inr (api_class ''B'' [])
       else if c = ''C'' then Inr (api_class ''C'' [''Root''])
       else Inl (RequestException ''404''))"

definition diamond_api :: services where
  "diamond_api =
     api_for (\<lambda>c.
       if c = ''Root'' then Inr (api_class ''Root'' [''A'', ''B''])
       else if c = ''A'' then Inr (api_class ''A'' [''Z''])
       else if c = ''B'' then Inr (api_class ''B'' [''Z''])
       else if c = ''Z'' then Inr (api_class ''Z'' [])
       else Inl (RequestException ''404''))"

section \<open>Properties of the wave-based crawler\<close>

subsection \<open>One future, one wave\<close>

lemma foldl_add_child:
  "foldl add_child st cs = st\<lparr>to_crawl := to_crawl st @ filter (\<lambda>c. c \<notin> visited st) cs\<rparr>"
  by (induction cs arbitrary: st) (simp_all add: add_child_def)

lemma succeeds_iff: "succeeds browse u \<longleftrightarrow> (\<exists>data cs. crawl_one_class browse u = Inr (data, cs))"
  by (auto simp: succeeds_def crawl_one_class_def split: sum.splits)

lemma not_succeeds_iff: "\<not> succeeds browse u \<longleftrightarrow> (\<exists>e. crawl_one_class browse u = Inl e)"
  by (auto simp: succeeds_def crawl_one_class_def split: sum.splits)

lemma process_future_failure:
  "crawl_one_class browse u = Inl e \<Longrightarrow> process_future browse st u = st"
  by (simp add: process_future_def)

lemma process_future_success:
  "crawl_one_class browse u = Inr (data, child_urls) \<Longrightarrow>
   process_future browse st u =
     st\<lparr>results := results st @ [data], visited := insert u (visited st),
        to_crawl := to_crawl st @ filter (\<lambda>c. c \<notin> insert u (visited st)) child_urls\<rparr>"
  by (simp add: process_future_def foldl_add_child)

lemma process_future_alt:
  "process_future browse st u =
     (if succeeds browse u
      then st\<lparr>results := results st @ record_of browse u, visited := insert u (visited st),
        to_crawl := to_crawl st @ filter (\<lambda>c. c \<notin> insert u (visited st)) (children browse u)\<rparr>
      else st)"
proof (cases "crawl_one_class browse u")
  case (Inl e)
  then show ?thesis
    using not_succeeds_iff [of browse u] by (simp add: process_future_failure)
next
  case (Inr r)
  then show ?thesis
    using succeeds_iff [of browse u]
    by (cases r) (simp add: process_future_success record_of_def children_def)
qed

lemma filter_filter_weaker:
  "(\<And>x. P x \<Longrightarrow> Q x) \<Longrightarrow> filter P (filter Q xs) = filter P xs"
  by (induction xs) auto

lemma visited_foldl:
  "visited (foldl (process_future browse) st us) = visited st \<union> {u \<in> set us. succeeds browse u}"
  by (induction us arbitrary: st) (auto simp: process_future_alt)

lemma results_foldl:
  "results (foldl (process_future browse) st us) =
     results st @ concat (map (record_of browse) (filter (succeeds browse) us))"
  by (induction us arbitrary: st) (auto simp: process_future_alt)

lemma to_crawl_foldl:
  "visited st \<union> {u \<in> set us. succeeds browse u} \<subseteq> W \<Longrightarrow>
   filter (\<lambda>c. c \<notin> W) (to_crawl (foldl (process_future browse) st us)) =
     filter (\<lambda>c. c \<notin> W) (to_crawl st) @
     concat (map (\<lambda>u. filter (\<lambda>c. c \<notin> W) (children browse u)) (filter (succeeds browse) us))"
proof (induction us arbitrary: st)
  case Nil
  then show ?case by simp
next
  case (Cons u us)
  show ?case
  proof (cases "succeeds browse u")
    case True
    let ?st = "process_future browse st u"
    have v: "visited ?st = insert u (visited st)"
      using True by (simp add: process_future_alt)
    have sub: "visited ?st \<union> {u \<in> set us. succeeds browse u} \<subseteq> W"
      using Cons.prems True v by auto
    have "\<And>c. c \<notin> W \<Longrightarrow> c \<notin> insert u (visited st)"
      using sub v by auto
    then have f: "filter (\<lambda>c. c \<notin> W) (filter (\<lambda>c. c \<notin> insert u (visited st)) (children browse u))
        = filter (\<lambda>c. c \<notin> W) (children browse u)"
      by (rule filter_filter_weaker)
    have t: "to_crawl ?st = to_crawl st @ filter (\<lambda>c. c \<notin> insert u (visited st)) (children browse u)"
      using True by (simp add: process_future_alt)
    have "filter (\<lambda>c. c \<notin> W) (to_crawl ?st) =
        filter (\<lambda>c. c \<notin> W) (to_crawl st) @ filter (\<lambda>c. c \<notin> W) (children browse u)"
      by (simp only: t filter_append f)
    then show ?thesis
      using Cons.IH [OF sub] True by simp
  next
    case False
    then have "process_future browse st u = st"
      by (simp add: process_future_alt)
    moreover have "visited st \<union> {u \<in> set us. succeeds browse u} \<subseteq> W"
      using Cons.prems by auto
    ultimately show ?thesis
      using Cons.IH [of st] False by simp
  qed
qed


lemma wave_state_stop:
  "to_crawl st = [] \<Longrightarrow> wave_state browse c st n = st"
  by (induction n) (simp_all add: Let_def)

lemma wave_state_shift:
  "wave_state browse c st (Suc n) =
     (if to_crawl st = [] then st
      else wave_state browse (\<lambda>i. c (Suc i)) (wave_step browse (c 0) st) n)"
proof (induction n)
  case 0
  show ?case by simp
next
  case (Suc n)
  show ?case
  proof (cases "to_crawl st = []")
    case True
    then show ?thesis
      using wave_state_stop [of st browse c] by (simp add: Let_def)
  next
    case False
    let ?c = "\<lambda>i. c (Suc i)" and ?st = "wave_step browse (c 0) st"
    have ih: "wave_state browse c st (Suc n) = wave_state browse ?c ?st n"
      using Suc.IH False by (simp only: if_False)
    have "wave_state browse c st (Suc (Suc n)) =
        (let s = wave_state browse c st (Suc n)
         in if to_crawl s = [] then s else wave_step browse (c (Suc n)) s)"
      by (rule wave_state.simps(2))
    also have "\<dots> = (let s = wave_state browse ?c ?st n
         in if to_crawl s = [] then s else wave_step browse (c (Suc n)) s)"
      by (simp only: ih)
    also have "\<dots> = wave_state browse ?c ?st (Suc n)"
      by simp
    finally show ?thesis using False by (simp only: if_False)
  qed
qed

lemma crawl_loop_reaches:
  "to_crawl (wave_state browse (\<lambda>i. c (k + i)) st n) = [] \<Longrightarrow>
   crawl_loop browse c k st = Some (wave_state browse (\<lambda>i. c (k + i)) st n)"
proof (induction n arbitrary: k st)
  case 0
  then show ?case by (simp add: crawl_loop.simps)
next
  case (Suc n)
  show ?case
  proof (cases "to_crawl st = []")
    case True
    then show ?thesis
      by (simp add: crawl_loop.simps wave_state_stop Let_def del: wave_state.simps)
  next
    case False
    have sh: "wave_state browse (\<lambda>i. c (k + i)) st (Suc n) =
        wave_state browse (\<lambda>i. c (Suc k + i)) (wave_step browse (c k) st) n"
      using False by (simp add: wave_state_shift del: wave_state.simps)
    then have "crawl_loop browse c (Suc k) (wave_step browse (c k) st) =
        Some (wave_state browse (\<lambda>i. c (Suc k + i)) (wave_step browse (c k) st) n)"
      using Suc.prems Suc.IH [of "Suc k" "wave_step browse (c k) st"] by simp
    then show ?thesis
      using False sh by (subst crawl_loop.simps) simp
  qed
qed

lemma crawl_loop_first:
  "crawl_loop browse c k st = Some r \<Longrightarrow>
   \<exists>n. r = wave_state browse (\<lambda>i. c (k + i)) st n \<and> to_crawl r = [] \<and>
       (\<forall>m<n. to_crawl (wave_state browse (\<lambda>i. c (k + i)) st m) \<noteq> [])"
proof (induction browse c k st r rule: crawl_loop.raw_induct [rotated 1, consumes 1])
  case (1 loop browse c k st r)
  show ?case
  proof (cases "to_crawl st = []")
    case True
    then have "r = st" using 1(2) by simp
    then have "r = wave_state browse (\<lambda>i. c (k + i)) st 0 \<and> to_crawl r = [] \<and>
       (\<forall>m<0. to_crawl (wave_state browse (\<lambda>i. c (k + i)) st m) \<noteq> [])"
      using True by simp
    then show ?thesis by blast
  next
    case False
    let ?st = "wave_step browse (c k) st"
    from False 1(2) have "loop browse c (Suc k) ?st = Some r" by simp
    from 1(1) [OF this] obtain n where
      n: "r = wave_state browse (\<lambda>i. c (Suc k + i)) ?st n" "to_crawl r = []"
        "\<forall>m<n. to_crawl (wave_state browse (\<lambda>i. c (Suc k + i)) ?st m) \<noteq> []"
      by blast
    have sh: "\<And>m. wave_state browse (\<lambda>i. c (k + i)) st (Suc m) =
        wave_state browse (\<lambda>i. c (Suc k + i)) ?st m"
      using False by (simp add: wave_state_shift del: wave_state.simps)
    have "\<forall>m<Suc n. to_crawl (wave_state browse (\<lambda>i. c (k + i)) st m) \<noteq> []"
    proof (intro allI impI)
      fix m assume "m < Suc n"
      show "to_crawl (wave_state browse (\<lambda>i. c (k + i)) st m) \<noteq> []"
      proof (cases m)
        case 0
        then show ?thesis using False by simp
      next
        case (Suc m')
        then show ?thesis using n(3) \<open>m < Suc n\<close> sh [of m'] by simp
      qed
    qed
    then have "r = wave_state browse (\<lambda>i. c (k + i)) st (Suc n) \<and> to_crawl r = [] \<and>
       (\<forall>m<Suc n. to_crawl (wave_state browse (\<lambda>i. c (k + i)) st m) \<noteq> [])"
      using n(1,2) sh [of n] by simp
    then show ?thesis by blast
  qed
qed


lemma visited_wave_step:
  "visited (wave_step browse completion st) =
     visited st \<union> {u \<in> set (completion (futures st)). succeeds browse u}"
  by (simp add: wave_step_def visited_foldl)

lemma results_wave_step:
  "results (wave_step browse completion st) =
     results st @ concat (map (record_of browse) (filter (succeeds browse) (completion (futures st))))"
  by (simp add: wave_step_def results_foldl)

lemma futures_wave_step:
  "futures (wave_step browse completion st) =
     concat (map (\<lambda>u. filter (\<lambda>c. c \<notin> visited (wave_step browse completion st)) (children browse u))
       (filter (succeeds browse) (completion (futures st))))"
proof -
  let ?W = "visited (wave_step browse completion st)"
  let ?s = "st\<lparr>to_crawl := []\<rparr>"
  have "visited ?s \<union> {u \<in> set (completion (futures st)). succeeds browse u} \<subseteq> ?W"
    by (simp add: visited_wave_step)
  from to_crawl_foldl [OF this]
  have "filter (\<lambda>c. c \<notin> ?W) (to_crawl (wave_step browse completion st)) =
      concat (map (\<lambda>u. filter (\<lambda>c. c \<notin> ?W) (children browse u))
        (filter (succeeds browse) (completion (futures st))))"
    by (simp add: wave_step_def)
  then show ?thesis
    by (simp only: futures_def [of "wave_step browse completion st"])
qed

lemma mset_concat_map_filter:
  "mset xs = mset ys \<Longrightarrow>
   mset (concat (map f (filter P xs))) = mset (concat (map f (filter P ys)))"
proof -
  assume e: "mset xs = mset ys"
  have "\<And>zs. mset (concat (map f (filter P zs))) =
      (\<Sum>z\<in>#filter_mset P (mset zs). mset (f z))"
    by (induct_tac zs) simp_all
  then show ?thesis using e by simp
qed

lemma same_frontier_step:
  assumes "same_frontier s t"
    and "mset (c1 (futures s)) = mset (futures s)"
    and "mset (c2 (futures t)) = mset (futures t)"
  shows "same_frontier (wave_step browse c1 s) (wave_step browse c2 t)"
proof -
  have m: "mset (c1 (futures s)) = mset (c2 (futures t))"
    using assms by (simp add: same_frontier_def)
  then have st: "set (c1 (futures s)) = set (c2 (futures t))"
    by (rule mset_eq_setD)
  have v: "visited (wave_step browse c1 s) = visited (wave_step browse c2 t)"
    using assms(1) st by (simp add: visited_wave_step same_frontier_def)
  have r: "mset (results (wave_step browse c1 s)) = mset (results (wave_step browse c2 t))"
    using assms(1) mset_concat_map_filter [OF m, of "record_of browse" "succeeds browse"]
    by (simp add: results_wave_step same_frontier_def)
  have f: "mset (futures (wave_step browse c1 s)) = mset (futures (wave_step browse c2 t))"
    by (subst (1 2) futures_wave_step) (simp only: v mset_concat_map_filter [OF m])
  show ?thesis
    using v r f by (simp add: same_frontier_def)
qed

lemma wave_step_no_futures:
  "futures st = [] \<Longrightarrow> mset (completion []) = mset [] \<Longrightarrow>
   wave_step browse completion st = st\<lparr>to_crawl := []\<rparr>"
  by (simp add: wave_step_def)


lemma to_crawl_foldl_subset:
  "set (to_crawl (foldl (process_future browse) st us)) \<subseteq>
     set (to_crawl st) \<union> (\<Union>u\<in>{u \<in> set us. succeeds browse u}. set (children browse u))"
proof (induction us arbitrary: st)
  case Nil
  show ?case by simp
next
  case (Cons u us)
  show ?case
    using Cons.IH [of "process_future browse st u"]
    by (cases "succeeds browse u") (auto simp: process_future_alt)
qed

lemma to_crawl_wave_step_subset:
  "set (to_crawl (wave_step browse completion st)) \<subseteq>
     (\<Union>u\<in>{u \<in> set (completion (futures st)). succeeds browse u}. set (children browse u))"
  using to_crawl_foldl_subset [of browse "st\<lparr>to_crawl := []\<rparr>" "completion (futures st)"]
  by (simp add: wave_step_def)

lemma fair_shift: "fair c \<Longrightarrow> fair (\<lambda>i. c (k + i))"
  by (simp add: fair_def)

lemma fair_set: "fair c \<Longrightarrow> set (c k w) = set w"
  by (metis fair_def mset_eq_setD)

lemma crawl_reaches_empty:
  assumes "finite N" and "\<forall>u\<in>N. set (children browse u) \<subseteq> N"
  shows "fair c \<Longrightarrow> set (to_crawl st) \<subseteq> N \<Longrightarrow> \<exists>n. to_crawl (wave_state browse c st n) = []"
proof (induction "card (N - visited st)" arbitrary: st c rule: less_induct)
  case less
  show ?case
  proof (cases "to_crawl st = []")
    case True
    then have "to_crawl (wave_state browse c st 0) = []" by simp
    then show ?thesis by blast
  next
    case False
    let ?st = "wave_step browse (c 0) st"
    let ?S = "{u \<in> set (c 0 (futures st)). succeeds browse u}"
    have fut: "set (c 0 (futures st)) = set (futures st)"
      using less.prems(1) by (rule fair_set)
    have futN: "set (futures st) \<subseteq> N"
      using less.prems(2) by (auto simp: futures_def)
    have sub: "set (to_crawl ?st) \<subseteq> N"
      using to_crawl_wave_step_subset [of browse "c 0" st] assms(2) fut futN by blast
    have sh: "\<And>n. wave_state browse c st (Suc n) = wave_state browse (\<lambda>i. c (Suc i)) ?st n"
      using False by (simp add: wave_state_shift del: wave_state.simps)
    show ?thesis
    proof (cases "?S = {}")
      case True
      then have "set (to_crawl ?st) \<subseteq> {}"
        using to_crawl_wave_step_subset [of browse "c 0" st] by (simp only: UN_empty)
      then have "to_crawl ?st = []"
        by simp
      then have "to_crawl (wave_state browse c st (Suc 0)) = []"
        by (simp only: sh wave_state.simps(1))
      then show ?thesis by blast
    next
      case nonempty: False
      then obtain u where u: "u \<in> set (futures st)" "succeeds browse u"
        using fut by auto
      then have "u \<in> N" "u \<notin> visited st" "u \<in> visited ?st"
        using futN fut by (auto simp: futures_def visited_wave_step)
      moreover have "visited st \<subseteq> visited ?st"
        by (auto simp: visited_wave_step)
      ultimately have "N - visited ?st \<subset> N - visited st"
        by blast
      then have "card (N - visited ?st) < card (N - visited st)"
        using assms(1) by (simp add: psubset_card_mono)
      moreover have "fair (\<lambda>i. c (Suc i))"
        using less.prems(1) by (simp add: fair_def)
      ultimately obtain n where "to_crawl (wave_state browse (\<lambda>i. c (Suc i)) ?st n) = []"
        using less.hyps sub by blast
      then have "to_crawl (wave_state browse c st (Suc n)) = []"
        by (simp only: sh)
      then show ?thesis by blast
    qed
  qed
qed

lemma same_frontier_wave_state:
  assumes "fair c1" and "fair c2" and "same_frontier s t"
  shows "same_frontier (wave_state browse c1 s n) (wave_state browse c2 t n)"
proof (induction n)
  case 0
  show ?case using assms(3) by simp
next
  case (Suc n)
  let ?s = "wave_state browse c1 s n" and ?t = "wave_state browse c2 t n"
  have m1: "\<And>w. mset (c1 n w) = mset w" and m2: "\<And>w. mset (c2 n w) = mset w"
    using assms(1,2) by (simp_all add: fair_def)
  have stay: "\<And>a b c. same_frontier a b \<Longrightarrow> to_crawl a = [] \<Longrightarrow> (\<And>w. mset (c w) = mset w) \<Longrightarrow>
      same_frontier a (wave_step browse c b) \<and> same_frontier (wave_step browse c b) a"
  proof -
    fix a b :: crawl_state and c :: "url list \<Rightarrow> url list"
    assume ab: "same_frontier a b" and a: "to_crawl a = []" and c: "\<And>w. mset (c w) = mset w"
    have "futures a = []" using a by (simp add: futures_def)
    then have "futures b = []" using ab by (simp add: same_frontier_def)
    then have "wave_step browse c b = b\<lparr>to_crawl := []\<rparr>"
      using c [of "[]"] by (simp add: wave_step_def)
    then show "same_frontier a (wave_step browse c b) \<and> same_frontier (wave_step browse c b) a"
      using ab \<open>futures a = []\<close> by (simp add: same_frontier_def futures_def)
  qed
  have sym: "same_frontier ?t ?s"
    using Suc by (simp add: same_frontier_def)
  show ?case
  proof (cases "to_crawl ?s = []")
    case s: True
    show ?thesis
    proof (cases "to_crawl ?t = []")
      case True
      then show ?thesis using s Suc by (simp add: Let_def)
    next
      case False
      then show ?thesis using s stay [OF Suc s m2] by (simp add: Let_def)
    qed
  next
    case s: False
    show ?thesis
    proof (cases "to_crawl ?t = []")
      case True
      then show ?thesis using s stay [OF sym True m1] by (simp add: Let_def)
    next
      case False
      then show ?thesis
        using s same_frontier_step [of ?s ?t "c1 n" "c2 n" browse, OF Suc m1 m2] by (simp add: Let_def)
    qed
  qed
qed

lemma same_frontier_finish:
  assumes "fair c2" and "same_frontier s t" and "to_crawl s = []"
  shows "to_crawl (wave_state browse c2 t (Suc 0)) = [] \<and>
         same_frontier s (wave_state browse c2 t (Suc 0))"
proof -
  have "futures s = []" using assms(3) by (simp add: futures_def)
  then have f: "futures t = []" using assms(2) by (simp add: same_frontier_def)
  have "mset (c2 0 []) = mset []" using assms(1) by (simp only: fair_def)
  then have "c2 0 [] = []" by simp
  then have "wave_step browse (c2 0) t = t\<lparr>to_crawl := []\<rparr>"
    using f by (simp add: wave_step_def)
  then show ?thesis
    using assms(2) f \<open>futures s = []\<close> by (simp add: same_frontier_def futures_def)
qed

subsection \<open>Runs on the example sites\<close>

lemmas run_simps = crawl_all_classes_def initial_state_def crawl_loop.simps wave_step_def
  futures_def process_future_def crawl_one_class_def add_child_def absolute_url_def
  page_with_def in_order_def last_first_def parsed_page.extend_def class_record.fields_def

lemmas point_simps = crawl_point_def wave_point_def run_simps Let_def

lemma fair_in_order: "fair in_order"
  by (simp add: fair_def in_order_def)

lemma fair_last_first: "fair last_first"
  by (simp add: fair_def last_first_def)

lemma cycle_site_in_order:
  "map_option (map url) (crawl_all_classes cycle_site in_order ''Root'') =
     Some [''Root'', ''A'', ''B'', ''C'']"
  by (simp add: run_simps cycle_site_def)

subsection \<open>Independence of the completion order\<close>

lemma crawl_loop_same_frontier:
  assumes "fair c1" and "fair c2" and "same_frontier s t"
    and "crawl_loop browse c1 0 s = Some r1"
  shows "\<exists>r2. crawl_loop browse c2 0 t = Some r2 \<and> same_frontier r1 r2"
proof -
  from crawl_loop_first [OF assms(4)] obtain n where
    n: "r1 = wave_state browse c1 s n" "to_crawl r1 = []"
    by auto
  let ?t = "wave_state browse c2 t n"
  have sf: "same_frontier r1 ?t"
    unfolding n(1) using assms(1-3) by (rule same_frontier_wave_state)
  have "fair (\<lambda>i. c2 (n + i))"
    using assms(2) by (rule fair_shift)
  from same_frontier_finish [OF this sf n(2), of browse]
  have fin: "to_crawl (wave_state browse c2 t (Suc n)) = []"
    "same_frontier r1 (wave_state browse c2 t (Suc n))"
    by (auto simp: Let_def split: if_splits)
  from fin(1) have "to_crawl (wave_state browse (\<lambda>i. c2 (0 + i)) t (Suc n)) = []"
    by simp
  from crawl_loop_reaches [OF this]
  have "crawl_loop browse c2 0 t = Some (wave_state browse c2 t (Suc n))"
    by simp
  then show ?thesis using fin(2) by blast
qed

lemma same_frontier_refl: "same_frontier s s"
  by (simp add: same_frontier_def)

subsection \<open>The registry during a run\<close>

lemma visited_wave_point:
  "visited (wave_point browse completion st i) =
     visited st \<union> {u \<in> set (take i (completion (futures st))). succeeds browse u}"
  by (simp add: wave_point_def visited_foldl)

lemma wave_point_subset_step:
  "visited (wave_point browse completion st i) \<subseteq> visited (wave_step browse completion st)"
  using set_take_subset [of i "completion (futures st)"]
  by (auto simp: visited_wave_point visited_wave_step)

lemma wave_point_no_futures:
  assumes "fair c" and "to_crawl st = []"
  shows "visited (wave_point browse (c n) st i) = visited st"
proof -
  have "futures st = []" using assms(2) by (simp add: futures_def)
  moreover have "set (c n []) = set []" using assms(1) by (rule fair_set)
  ultimately show ?thesis by (simp add: visited_wave_point)
qed

lemma visited_wave_state_Suc:
  "visited (wave_state browse c st n) \<subseteq> visited (wave_state browse c st (Suc n))"
  by (auto simp: Let_def visited_wave_step)

lemma visited_wave_state_mono:
  "visited (wave_state browse c st n) \<subseteq> visited (wave_state browse c st (n + m))"
proof (induction m)
  case 0
  show ?case by simp
next
  case (Suc m)
  then show ?case
    using visited_wave_state_Suc [of browse c st "n + m"] by simp
qed

lemma visited_point_before_next:
  assumes "fair c"
  shows "visited (wave_point browse (c n) (wave_state browse c st n) i) \<subseteq>
         visited (wave_state browse c st (Suc n))"
proof (cases "to_crawl (wave_state browse c st n) = []")
  case True
  then show ?thesis
    using wave_point_no_futures [OF assms True] by (simp add: Let_def)
next
  case False
  then show ?thesis
    using wave_point_subset_step [of browse "c n" "wave_state browse c st n" i]
    by (simp add: Let_def)
qed

lemma futures_avoid_visited: "u \<in> visited st \<Longrightarrow> u \<notin> set (futures st)"
  by (simp add: futures_def)

lemma visited_results_process_future:
  assumes "\<forall>u\<in>visited st. succeeds browse u \<and> set (record_of browse u) \<subseteq> set (results st)"
  shows "\<forall>u\<in>visited (process_future browse st x).
           succeeds browse u \<and> set (record_of browse u) \<subseteq> set (results (process_future browse st x))"
  using assms by (auto simp: process_future_alt)

lemma visited_results_foldl:
  "\<forall>u\<in>visited st. succeeds browse u \<and> set (record_of browse u) \<subseteq> set (results st) \<Longrightarrow>
   \<forall>u\<in>visited (foldl (process_future browse) st us).
     succeeds browse u \<and> set (record_of browse u) \<subseteq> set (results (foldl (process_future browse) st us))"
proof (induction us arbitrary: st)
  case Nil
  then show ?case by simp
next
  case (Cons x us)
  from Cons.IH [OF visited_results_process_future [OF Cons.prems, of x]]
  show ?case by simp
qed

lemma visited_results_wave_state:
  "\<forall>u\<in>visited st. succeeds browse u \<and> set (record_of browse u) \<subseteq> set (results st) \<Longrightarrow>
   \<forall>u\<in>visited (wave_state browse c st n).
     succeeds browse u \<and> set (record_of browse u) \<subseteq> set (results (wave_state browse c st n))"
proof (induction n)
  case 0
  then show ?case by simp
next
  case (Suc n)
  let ?s = "wave_state browse c st n"
  have "\<forall>u\<in>visited (?s\<lparr>to_crawl := []\<rparr>).
      succeeds browse u \<and> set (record_of browse u) \<subseteq> set (results (?s\<lparr>to_crawl := []\<rparr>))"
    using Suc by simp
  from visited_results_foldl [OF this, of "c n (futures ?s)"] Suc
  show ?case by (simp add: Let_def wave_step_def)
qed

text \<open>
  What the filter at the head of the loop does give: \<open>visited\<close> only grows, from one
  handled future to the next and from one iteration to the next, and a URL that is in
  \<open>visited\<close> at some point of a run is not among the futures submitted by any later
  iteration. Futures of the same iteration that are still pending when the URL is marked
  are not covered: they were submitted before.
\<close>

lemma visited_grows_and_blocks_submission:
  assumes "fair as_completed"
  shows "visited (crawl_point browse as_completed start_url n i) \<subseteq>
           visited (crawl_point browse as_completed start_url n (i + j)) \<and>
         visited (crawl_point browse as_completed start_url n i) \<subseteq>
           visited (crawl_point browse as_completed start_url (Suc n + m) j) \<and>
         (\<forall>u\<in>visited (crawl_point browse as_completed start_url n i).
            u \<notin> set (futures (wave_state browse as_completed (initial_state start_url) (Suc n + m)))) \<and>
         (\<forall>u\<in>visited (wave_state browse as_completed (initial_state start_url) n).
            u \<notin> set (futures (wave_state browse as_completed (initial_state start_url) (n + m))))"
proof -
  let ?S = "wave_state browse as_completed (initial_state start_url)"
  let ?P = "crawl_point browse as_completed start_url"
  have a: "visited (?P n i) \<subseteq> visited (?P n (i + j))"
    using set_take_subset_set_take [of i "i + j" "as_completed n (futures (?S n))"]
    by (auto simp: crawl_point_def visited_wave_point)
  have "visited (?P n i) \<subseteq> visited (?S (Suc n))"
    unfolding crawl_point_def using assms by (rule visited_point_before_next)
  also have "\<dots> \<subseteq> visited (?S (Suc n + m))"
    by (rule visited_wave_state_mono)
  finally have b: "visited (?P n i) \<subseteq> visited (?S (Suc n + m))" .
  have "visited (?S (Suc n + m)) \<subseteq> visited (?P (Suc n + m) j)"
    by (auto simp: crawl_point_def visited_wave_point)
  with b have c: "visited (?P n i) \<subseteq> visited (?P (Suc n + m) j)"
    by blast
  have d: "\<forall>u\<in>visited (?P n i). u \<notin> set (futures (?S (Suc n + m)))"
    using b futures_avoid_visited by blast
  have "visited (?S n) \<subseteq> visited (?S (n + m))"
    by (rule visited_wave_state_mono)
  then have e: "\<forall>u\<in>visited (?S n). u \<notin> set (futures (?S (n + m)))"
    using futures_avoid_visited by blast
  show ?thesis using a c d e by blast
qed

lemma visited_grows_on_cycle_site:
  "fair in_order \<and>
   ''A'' \<in> visited (crawl_point cycle_site in_order ''Root'' 1 1) \<and>
   visited (crawl_point cycle_site in_order ''Root'' 1 1) \<subseteq>
     visited (crawl_point cycle_site in_order ''Root'' 1 2) \<and>
   visited (crawl_point cycle_site in_order ''Root'' 1 1) \<subseteq>
     visited (crawl_point cycle_site in_order ''Root'' 2 1) \<and>
   ''A'' \<notin> set (futures (wave_state cycle_site in_order (initial_state ''Root'') 2)) \<and>
   ''Root'' \<in> visited (wave_state cycle_site in_order (initial_state ''Root'') 1) \<and>
   ''Root'' \<notin> set (futures (wave_state cycle_site in_order (initial_state ''Root'') 3))"
proof -
  have a: "''A'' \<in> visited (crawl_point cycle_site in_order ''Root'' 1 1)"
    by (simp add: point_simps cycle_site_def)
  have r: "''Root'' \<in> visited (wave_state cycle_site in_order (initial_state ''Root'') 1)"
    by (simp add: point_simps cycle_site_def)
  from visited_grows_and_blocks_submission [OF fair_in_order,
      where browse = cycle_site and start_url = "''Root''" and n = 1 and i = 1 and j = 1 and m = 0]
    visited_grows_and_blocks_submission [OF fair_in_order,
      where browse = cycle_site and start_url = "''Root''" and n = 1 and i = 1 and j = 1 and m = 2]
    a r fair_in_order
  show ?thesis by (simp add: numeral_2_eq_2 numeral_3_eq_3 del: wave_state.simps)
qed

section \<open>Properties of the recursive crawler\<close>

lemma append_to_category_nonempty: "append_to_category d category row \<noteq> []"
  by (cases d) (auto split: if_splits)

lemma group_property_nonempty: "group_property d p \<noteq> []"
  by (simp add: group_property_def Let_def append_to_category_nonempty)

lemma properties_by_category_nonempty: "properties_by_category properties_data \<noteq> []"
  by (simp add: properties_by_category_def Let_def)

lemma foldl_group_property_nonempty:
  "properties_data \<noteq> [] \<Longrightarrow> foldl group_property d properties_data \<noteq> []"
proof (induction properties_data arbitrary: d rule: rev_induct)
  case Nil
  then show ?case by simp
next
  case (snoc p ps)
  show ?case by (simp add: group_property_nonempty)
qed

lemma fetch_keeps_properties:
  "(fetch_class depth api class_code st = Some st' \<longrightarrow>
     (\<forall>obj\<in>set (outputs st). obj_properties obj \<noteq> []) \<longrightarrow>
     (\<forall>obj\<in>set (outputs st'). obj_properties obj \<noteq> []))"
  "(fetch_children depth api cs st = Some st' \<longrightarrow>
     (\<forall>obj\<in>set (outputs st). obj_properties obj \<noteq> []) \<longrightarrow>
     (\<forall>obj\<in>set (outputs st'). obj_properties obj \<noteq> []))"
proof (induction depth api class_code st and depth api cs st arbitrary: st' and st'
    rule: fetch_class_fetch_children.induct)
  case (1 api class_code st)
  show ?case by simp
next
  case (2 depth api class_code st)
  show ?case
  proof (intro impI)
    assume run: "fetch_class (Suc depth) api class_code st = Some st'"
      and inv: "\<forall>obj\<in>set (outputs st). obj_properties obj \<noteq> []"
    show "\<forall>obj\<in>set (outputs st'). obj_properties obj \<noteq> []"
    proof (cases "class_code \<in> seen st")
      case True
      then show ?thesis using run inv by simp
    next
      case False
      let ?st1 = "st\<lparr>seen := insert class_code (seen st)\<rparr>"
      show ?thesis
      proof (cases "get_class api class_code")
        case (Inl e)
        then show ?thesis using run inv False by (auto simp: Let_def)
      next
        case cd: (Inr cd)
        show ?thesis
        proof (cases "get_properties api class_code")
          case (Inl e)
          then show ?thesis using run inv False cd by (auto simp: Let_def)
        next
          case props: (Inr props)
          show ?thesis
          proof (cases "get_relations api class_code")
            case (Inl e)
            then show ?thesis using run inv False cd props by (auto simp: Let_def)
          next
            case rd: (Inr rd)
            let ?st2 = "?st1\<lparr>outputs := outputs ?st1 @
              [build_obj (urlparse_path api) cd (dict_get props []) rd]\<rparr>"
            have r: "fetch_children depth api
                (map child_code (dict_get (childClassReferences cd) [])) ?st2 = Some st'"
              using run False cd props rd by (simp add: Let_def)
            have i: "\<forall>obj\<in>set (outputs ?st2). obj_properties obj \<noteq> []"
              using inv by (auto simp: build_obj_def properties_by_category_nonempty)
            from "2.IH" [OF False refl cd props rd, of st'] r i
            show ?thesis by blast
          qed
        qed
      qed
    qed
  qed
next
  case (3 depth api st)
  show ?case by simp
next
  case (4 depth api c cs st)
  show ?case
  proof (intro impI)
    assume run: "fetch_children depth api (c # cs) st = Some st'"
      and inv: "\<forall>obj\<in>set (outputs st). obj_properties obj \<noteq> []"
    from run obtain s where s: "fetch_class depth api c st = Some s"
      and r: "fetch_children depth api cs s = Some st'"
      by (auto split: option.splits)
    from "4.IH"(1) [of s] s inv have "\<forall>obj\<in>set (outputs s). obj_properties obj \<noteq> []"
      by blast
    with "4.IH"(2) [OF s, of st'] r show "\<forall>obj\<in>set (outputs st'). obj_properties obj \<noteq> []"
      by blast
  qed
qed

lemmas api_simps = fetch_ifc_data_def cycle_api_def diamond_api_def api_for_def api_class_def
  build_obj_def
  properties_by_category_def group_property_def dict_get_def class_relations_def Let_def

text \<open>
  The recursive crawler on the two graphs: it returns, with one record per class, in the
  order of a depth-first walk. A depth of four calls is enough for both.
\<close>

lemma cycle_api_codes:
  "map_option (map obj_code) (fetch_ifc_data 4 cycle_api ''Root'') =
     Some [''Root'', ''A'', ''C'', ''B'']"
  by (simp add: api_simps eval_nat_numeral)

lemma diamond_api_codes:
  "map_option (map obj_code) (fetch_ifc_data 4 diamond_api ''Root'') =
     Some [''Root'', ''A'', ''Z'', ''B'']"
  by (simp add: api_simps eval_nat_numeral)

section \<open>Properties stated by the specification\<close>

text \<open>
  C1. Claim: in the list returned by a completed crawl every identifier has at most one
  record. The crawler submits one future per occurrence of a URL in \<open>to_crawl\<close>, and
  two pages of one wave that both link to Z put Z there twice: on the diamond site the
  returned list holds two records with the URL Z, whichever of A and B finishes first.
\<close>

theorem duplicate_record_for_shared_child:
  "map_option (map url) (crawl_all_classes diamond_site in_order ''Root'') =
     Some [''Root'', ''A'', ''B'', ''Z'', ''Z''] \<and>
   map_option (map url) (crawl_all_classes diamond_site last_first ''Root'') =
     Some [''Root'', ''B'', ''A'', ''Z'', ''Z'']"
  by (simp add: run_simps diamond_site_def)

text \<open>
  C2. Claim: a wave with repeated identifiers makes one fetch per identifier. On the
  diamond site the third iteration of the loop submits two futures for Z.
\<close>

theorem duplicate_fetch_in_one_wave:
  "futures (wave_state diamond_site in_order (initial_state ''Root'') 2) = [''Z'', ''Z''] \<and>
   count_list (futures (wave_state diamond_site in_order (initial_state ''Root'') 2)) ''Z'' = 2"
  by (simp add: run_simps diamond_site_def Let_def numeral_2_eq_2)


text \<open>
  C4. At every point of a run, every URL in \<open>visited\<close> is one whose fetch returned, and
  the record it returned is in \<open>results\<close>; a URL whose fetch raises is never in
  \<open>visited\<close>.
\<close>

theorem visited_only_successful:
  "(\<forall>u\<in>visited (crawl_point browse as_completed start_url n i).
      \<exists>data child_urls. crawl_one_class browse u = Inr (data, child_urls) \<and>
        data \<in> set (results (crawl_point browse as_completed start_url n i))) \<and>
   (\<forall>u e. crawl_one_class browse u = Inl e \<longrightarrow>
      u \<notin> visited (crawl_point browse as_completed start_url n i))"
proof -
  let ?s = "wave_state browse as_completed (initial_state start_url) n"
  let ?p = "crawl_point browse as_completed start_url n i"
  have "\<forall>u\<in>visited (initial_state start_url). succeeds browse u \<and>
      set (record_of browse u) \<subseteq> set (results (initial_state start_url))"
    by (simp add: initial_state_def)
  then have "\<forall>u\<in>visited ?s. succeeds browse u \<and> set (record_of browse u) \<subseteq> set (results ?s)"
    by (rule visited_results_wave_state)
  then have "\<forall>u\<in>visited (?s\<lparr>to_crawl := []\<rparr>).
      succeeds browse u \<and> set (record_of browse u) \<subseteq> set (results (?s\<lparr>to_crawl := []\<rparr>))"
    by simp
  then have inv: "\<forall>u\<in>visited ?p. succeeds browse u \<and> set (record_of browse u) \<subseteq> set (results ?p)"
    unfolding crawl_point_def wave_point_def by (rule visited_results_foldl)
  have a: "\<forall>u\<in>visited ?p. \<exists>data child_urls.
      crawl_one_class browse u = Inr (data, child_urls) \<and> data \<in> set (results ?p)"
  proof
    fix u assume u: "u \<in> visited ?p"
    with inv have s: "succeeds browse u" and r: "set (record_of browse u) \<subseteq> set (results ?p)"
      by blast+
    from s obtain data cs where d: "crawl_one_class browse u = Inr (data, cs)"
      by (auto simp: succeeds_iff)
    then have "data \<in> set (results ?p)"
      using r by (simp add: record_of_def)
    with d show "\<exists>data child_urls.
      crawl_one_class browse u = Inr (data, child_urls) \<and> data \<in> set (results ?p)"
      by blast
  qed
  have b: "\<forall>u e. crawl_one_class browse u = Inl e \<longrightarrow> u \<notin> visited ?p"
    using inv not_succeeds_iff [of browse] by blast
  show ?thesis using a b by blast
qed

theorem visited_only_successful_witness:
  "crawl_one_class retry_site ''X'' = Inl (Exception ''timeout'') \<and>
   ''X'' \<notin> visited (crawl_point retry_site in_order ''Root'' 1 2) \<and>
   ''S'' \<in> visited (crawl_point retry_site in_order ''Root'' 1 2) \<and>
   (\<exists>data child_urls. crawl_one_class retry_site ''S'' = Inr (data, child_urls) \<and>
      data \<in> set (results (crawl_point retry_site in_order ''Root'' 1 2)))"
proof -
  have x: "crawl_one_class retry_site ''X'' = Inl (Exception ''timeout'')"
    by (simp add: crawl_one_class_def retry_site_def)
  have s: "''S'' \<in> visited (crawl_point retry_site in_order ''Root'' 1 2)"
    by (simp add: point_simps retry_site_def numeral_2_eq_2)
  from visited_only_successful [of retry_site in_order "''Root''" 1 2] x s
  show ?thesis by blast
qed

text \<open>
  C5. An exception of the fetch of one URL is absorbed where the future is handled: the
  three variables stay as they were, and the wave ends in the state it would have reached
  without that future, so the other futures are handled as if it had not been there.
\<close>

theorem failure_stays_inside_its_future:
  assumes "crawl_one_class browse x = Inl e"
  shows "process_future browse st x = st \<and>
         foldl (process_future browse) st (us @ x # vs) =
           foldl (process_future browse) st (us @ vs)"
proof -
  have "\<And>s. process_future browse s x = s"
    using assms by (rule process_future_failure)
  then show ?thesis by simp
qed

theorem failure_stays_inside_its_future_witness:
  "crawl_one_class retry_site ''X'' = Inl (Exception ''timeout'') \<and>
   process_future retry_site (initial_state ''Root'') ''X'' = initial_state ''Root'' \<and>
   foldl (process_future retry_site) (initial_state ''Root'') ([''Root''] @ ''X'' # [''S'']) =
     foldl (process_future retry_site) (initial_state ''Root'') ([''Root''] @ [''S''])"
proof -
  have x: "crawl_one_class retry_site ''X'' = Inl (Exception ''timeout'')"
    by (simp add: crawl_one_class_def retry_site_def)
  from failure_stays_inside_its_future [OF x] x show ?thesis by blast
qed

text \<open>
  C6. If the fetch of X raises in wave \<open>k\<close> and a URL of the same wave whose fetch returns
  lists X as a child, then X is among the futures submitted in wave \<open>k + 1\<close>, whichever of
  the two finishes first.
\<close>

theorem failed_child_is_dispatched_again:
  assumes "fair as_completed"
    and "x \<in> set (futures (wave_state browse as_completed (initial_state start_url) k))"
    and "crawl_one_class browse x = Inl e"
    and "y \<in> set (futures (wave_state browse as_completed (initial_state start_url) k))"
    and "crawl_one_class browse y = Inr (data, child_urls)"
    and "x \<in> set child_urls"
  shows "x \<in> set (futures (wave_state browse as_completed (initial_state start_url) (Suc k)))"
proof -
  let ?s = "wave_state browse as_completed (initial_state start_url) k"
  let ?t = "wave_step browse (as_completed k) ?s"
  have ne: "to_crawl ?s \<noteq> []"
    using assms(2) by (auto simp: futures_def)
  then have next_state: "wave_state browse as_completed (initial_state start_url) (Suc k) = ?t"
    by (simp add: Let_def)
  have fs: "set (as_completed k (futures ?s)) = set (futures ?s)"
    using assms(1) by (rule fair_set)
  have "\<not> succeeds browse x"
    using assms(3) not_succeeds_iff by blast
  moreover have "x \<notin> visited ?s"
    using assms(2) by (simp add: futures_def)
  ultimately have nv: "x \<notin> visited ?t"
    by (simp add: visited_wave_step)
  have sy: "succeeds browse y" and cy: "x \<in> set (children browse y)"
    using assms(5,6) by (auto simp: succeeds_iff children_def)
  have "x \<in> set (futures ?t)"
    by (subst futures_wave_step) (use nv sy cy assms(4) fs in auto)
  then show ?thesis by (simp only: next_state)
qed

theorem failed_child_is_dispatched_again_witness:
  "fair in_order \<and>
   ''X'' \<in> set (futures (wave_state retry_site in_order (initial_state ''Root'') 1)) \<and>
   crawl_one_class retry_site ''X'' = Inl (Exception ''timeout'') \<and>
   ''S'' \<in> set (futures (wave_state retry_site in_order (initial_state ''Root'') 1)) \<and>
   (\<exists>data. crawl_one_class retry_site ''S'' = Inr (data, [''X''])) \<and>
   ''X'' \<in> set (futures (wave_state retry_site in_order (initial_state ''Root'') 2))"
proof -
  have x: "''X'' \<in> set (futures (wave_state retry_site in_order (initial_state ''Root'') 1))"
    and s: "''S'' \<in> set (futures (wave_state retry_site in_order (initial_state ''Root'') 1))"
    by (simp_all add: point_simps retry_site_def)
  have fx: "crawl_one_class retry_site ''X'' = Inl (Exception ''timeout'')"
    by (simp add: crawl_one_class_def retry_site_def)
  have "\<exists>data. crawl_one_class retry_site ''S'' = Inr (data, [''X''])"
    by (simp add: crawl_one_class_def retry_site_def page_with_def absolute_url_def)
  then obtain data where fs: "crawl_one_class retry_site ''S'' = Inr (data, [''X''])"
    by blast
  have "''X'' \<in> set [''X'']" by simp
  from failed_child_is_dispatched_again [OF fair_in_order x fx s fs this]
  have "''X'' \<in> set (futures (wave_state retry_site in_order (initial_state ''Root'') (Suc 1)))" .
  then have "''X'' \<in> set (futures (wave_state retry_site in_order (initial_state ''Root'') 2))"
    by (simp only: Suc_1)
  then show ?thesis using fair_in_order x s fx fs by blast
qed

text \<open>
  C7. A run returns exactly when \<open>to_crawl\<close> is empty at the head of the loop: what it
  returns is \<open>results\<close> at the first such head, and if there is such a head it returns.
  When the start URL lies in a finite set of URLs that is closed under the child links of
  the pages that load, every run under a completion order that only rearranges the
  futures returns.
\<close>

theorem crawl_stops_when_to_crawl_is_empty:
  "(crawl_all_classes browse as_completed start_url = Some r \<longrightarrow>
      (\<exists>n. r = results (wave_state browse as_completed (initial_state start_url) n) \<and>
         to_crawl (wave_state browse as_completed (initial_state start_url) n) = [] \<and>
         (\<forall>m<n. to_crawl (wave_state browse as_completed (initial_state start_url) m) \<noteq> []))) \<and>
   (to_crawl (wave_state browse as_completed (initial_state start_url) n) = [] \<longrightarrow>
      crawl_all_classes browse as_completed start_url =
        Some (results (wave_state browse as_completed (initial_state start_url) n))) \<and>
   (fair as_completed \<and> finite N \<and> start_url \<in> N \<and> (\<forall>u\<in>N. set (children browse u) \<subseteq> N) \<longrightarrow>
      (\<exists>r. crawl_all_classes browse as_completed start_url = Some r))"
proof -
  let ?S = "wave_state browse as_completed (initial_state start_url)"
  have a: "crawl_all_classes browse as_completed start_url = Some r \<longrightarrow>
      (\<exists>n. r = results (?S n) \<and> to_crawl (?S n) = [] \<and> (\<forall>m<n. to_crawl (?S m) \<noteq> []))"
  proof
    assume "crawl_all_classes browse as_completed start_url = Some r"
    then obtain s where
      s: "crawl_loop browse as_completed 0 (initial_state start_url) = Some s" "r = results s"
      by (auto simp: crawl_all_classes_def)
    from crawl_loop_first [OF s(1)] s(2)
    show "\<exists>n. r = results (?S n) \<and> to_crawl (?S n) = [] \<and> (\<forall>m<n. to_crawl (?S m) \<noteq> [])"
      by auto
  qed
  have b: "\<And>n. to_crawl (?S n) = [] \<Longrightarrow>
      crawl_all_classes browse as_completed start_url = Some (results (?S n))"
  proof -
    fix n assume "to_crawl (?S n) = []"
    then have "to_crawl (wave_state browse (\<lambda>i. as_completed (0 + i)) (initial_state start_url) n) = []"
      by simp
    from crawl_loop_reaches [OF this]
    show "crawl_all_classes browse as_completed start_url = Some (results (?S n))"
      by (simp add: crawl_all_classes_def)
  qed
  have c: "fair as_completed \<and> finite N \<and> start_url \<in> N \<and> (\<forall>u\<in>N. set (children browse u) \<subseteq> N) \<longrightarrow>
      (\<exists>r. crawl_all_classes browse as_completed start_url = Some r)"
  proof
    assume h: "fair as_completed \<and> finite N \<and> start_url \<in> N \<and> (\<forall>u\<in>N. set (children browse u) \<subseteq> N)"
    then have "set (to_crawl (initial_state start_url)) \<subseteq> N"
      by (simp add: initial_state_def)
    with h crawl_reaches_empty [of N browse as_completed "initial_state start_url"]
    obtain n where "to_crawl (?S n) = []"
      by blast
    from b [OF this] show "\<exists>r. crawl_all_classes browse as_completed start_url = Some r"
      by blast
  qed
  show ?thesis using a b c by blast
qed

theorem crawl_stops_when_to_crawl_is_empty_witness:
  "fair in_order \<and> finite {''Root'', ''A'', ''B'', ''C''} \<and>
   ''Root'' \<in> {''Root'', ''A'', ''B'', ''C''} \<and>
   (\<Union>u\<in>{''Root'', ''A'', ''B'', ''C''}. set (children cycle_site u)) \<subseteq>
     {''Root'', ''A'', ''B'', ''C''} \<and>
   (\<exists>r. crawl_all_classes cycle_site in_order ''Root'' = Some r) \<and>
   to_crawl (wave_state cycle_site in_order (initial_state ''Root'') 3) = [] \<and>
   crawl_all_classes cycle_site in_order ''Root'' =
     Some (results (wave_state cycle_site in_order (initial_state ''Root'') 3)) \<and>
   (\<exists>n. to_crawl (wave_state cycle_site in_order (initial_state ''Root'') n) = [] \<and>
      (\<forall>m<n. to_crawl (wave_state cycle_site in_order (initial_state ''Root'') m) \<noteq> []))"
proof -
  let ?N = "{''Root'', ''A'', ''B'', ''C''}"
  have closed: "\<forall>u\<in>?N. set (children cycle_site u) \<subseteq> ?N"
    by (auto simp: children_def crawl_one_class_def cycle_site_def page_with_def absolute_url_def)
  have empty: "to_crawl (wave_state cycle_site in_order (initial_state ''Root'') 3) = []"
    by (simp add: point_simps cycle_site_def numeral_3_eq_3)
  have fin: "finite ?N" and mem: "''Root'' \<in> ?N"
    by simp_all
  from crawl_stops_when_to_crawl_is_empty [of cycle_site in_order "''Root''"
      "results (wave_state cycle_site in_order (initial_state ''Root'') 3)" 3 ?N]
    fair_in_order closed empty fin mem
  show ?thesis by blast
qed

text \<open>
  C8. If the page of every URL is fixed, the returned records do not depend on the order in
  which the futures of a wave finish: when a run under one completion order returns, the
  run under any other order returns too, with the same records, each as often, in
  possibly another order of the list.
\<close>

theorem crawl_deterministic:
  assumes "fair c1" and "fair c2"
    and "crawl_all_classes browse c1 start_url = Some r1"
  shows "\<exists>r2. crawl_all_classes browse c2 start_url = Some r2 \<and>
           mset r2 = mset r1 \<and> set r2 = set r1"
proof -
  from assms(3) obtain s1 where
    s1: "crawl_loop browse c1 0 (initial_state start_url) = Some s1" "r1 = results s1"
    by (auto simp: crawl_all_classes_def)
  from crawl_loop_same_frontier [OF assms(1,2) same_frontier_refl s1(1)]
  obtain s2 where
    s2: "crawl_loop browse c2 0 (initial_state start_url) = Some s2" "same_frontier s1 s2"
    by blast
  have "mset (results s2) = mset r1"
    using s1(2) s2(2) by (simp add: same_frontier_def)
  moreover from this have "set (results s2) = set r1"
    by (rule mset_eq_setD)
  ultimately show ?thesis
    using s2(1) by (simp add: crawl_all_classes_def)
qed

theorem crawl_deterministic_witness:
  "\<exists>r1 r2. crawl_all_classes cycle_site in_order ''Root'' = Some r1 \<and>
     crawl_all_classes cycle_site last_first ''Root'' = Some r2 \<and>
     mset r2 = mset r1 \<and> set r2 = set r1 \<and> length r1 = 4"
proof -
  have "\<exists>r1. crawl_all_classes cycle_site in_order ''Root'' = Some r1 \<and> length r1 = 4"
    by (simp add: run_simps cycle_site_def)
  then obtain r1 where
    r1: "crawl_all_classes cycle_site in_order ''Root'' = Some r1" "length r1 = 4"
    by blast
  from crawl_deterministic [OF fair_in_order fair_last_first r1(1)] r1 show ?thesis
    by blast
qed

text \<open>
  C9. On the site where Root links to A and B, A to C, B to nothing and C back to Root,
  the crawl from Root returns under every completion order, and the returned list has
  exactly one record for each of Root, A, B and C.
\<close>

theorem cycle_crawl:
  assumes "fair c"
  shows "\<exists>r. crawl_all_classes cycle_site c ''Root'' = Some r \<and>
           set (map url r) = {''Root'', ''A'', ''B'', ''C''} \<and> distinct (map url r) \<and>
           length r = 4"
proof -
  from cycle_site_in_order obtain s1 where
    s1: "crawl_loop cycle_site in_order 0 (initial_state ''Root'') = Some s1"
      "map url (results s1) = [''Root'', ''A'', ''B'', ''C'']"
    by (auto simp: crawl_all_classes_def)
  from crawl_loop_same_frontier [OF fair_in_order assms same_frontier_refl s1(1)]
  obtain s2 where
    s2: "crawl_loop cycle_site c 0 (initial_state ''Root'') = Some s2" "same_frontier s1 s2"
    by blast
  have "mset (map url (results s2)) = image_mset url (mset (results s1))"
    using s2(2) by (simp add: same_frontier_def)
  also have "\<dots> = mset (map url (results s1))"
    by simp
  finally have m: "mset (map url (results s2)) = mset [''Root'', ''A'', ''B'', ''C'']"
    by (simp only: s1(2))
  have "set (map url (results s2)) = set [''Root'', ''A'', ''B'', ''C'']"
    using m by (rule mset_eq_setD)
  moreover have "distinct (map url (results s2)) = distinct [''Root'', ''A'', ''B'', ''C'']"
    using m by (rule mset_eq_imp_distinct_iff)
  moreover have "length (map url (results s2)) = length [''Root'', ''A'', ''B'', ''C'']"
    using m by (rule mset_eq_length)
  ultimately show ?thesis
    using s2(1) by (simp add: crawl_all_classes_def)
qed

theorem cycle_crawl_witness:
  "fair last_first \<and>
   (\<exists>r. crawl_all_classes cycle_site last_first ''Root'' = Some r \<and>
      set (map url r) = {''Root'', ''A'', ''B'', ''C''} \<and> distinct (map url r) \<and> length r = 4)"
  using cycle_crawl [OF fair_last_first] fair_last_first by simp

text \<open>
  C10. Every record in the list returned by \<open>fetch_ifc_data\<close> has a non-empty
  \<open>properties\<close> dictionary. When the class has no properties, the dictionary is the
  single category Attributes with the one row named Attributes, of data type
  "not in bSDD" and with the empty definition; when it has some, the dictionary is the
  grouping of these and the placeholder is not added.
\<close>

theorem api_records_have_properties:
  "(fetch_ifc_data depth api start_class = Some out \<longrightarrow>
      (\<forall>obj\<in>set out. obj_properties obj \<noteq> [])) \<and>
   obj_properties (build_obj path cd [] rd) =
     [(''Attributes'',
       [\<lparr>prop_name = ''Attributes'', prop_data_type = ''not in bSDD'',
         prop_definition = ''''\<rparr>])] \<and>
   (properties_data \<noteq> [] \<longrightarrow>
      obj_properties (build_obj path cd properties_data rd) =
        foldl group_property [] properties_data)"
proof -
  have "fetch_ifc_data depth api start_class = Some out \<longrightarrow>
      (\<forall>obj\<in>set out. obj_properties obj \<noteq> [])"
    using fetch_keeps_properties(1) [of depth api start_class "\<lparr>seen = {}, outputs = []\<rparr>"]
    by (auto simp: fetch_ifc_data_def)
  moreover have "obj_properties (build_obj path cd [] rd) =
     [(''Attributes'',
       [\<lparr>prop_name = ''Attributes'', prop_data_type = ''not in bSDD'',
         prop_definition = ''''\<rparr>])]"
    by (simp add: build_obj_def properties_by_category_def)
  moreover have "properties_data \<noteq> [] \<longrightarrow>
      obj_properties (build_obj path cd properties_data rd) =
        foldl group_property [] properties_data"
    using foldl_group_property_nonempty [of properties_data "[]"]
    by (simp add: build_obj_def properties_by_category_def Let_def)
  ultimately show ?thesis by blast
qed

theorem api_records_have_properties_witness:
  "map_option (map obj_properties) (fetch_ifc_data 4 cycle_api ''Root'') =
     Some [[(''Attributes'',
              [\<lparr>prop_name = ''Attributes'', prop_data_type = ''not in bSDD'',
                prop_definition = ''''\<rparr>])],
           [(''Attributes'',
              [\<lparr>prop_name = ''GlobalId'', prop_data_type = ''String'',
                prop_definition = ''''\<rparr>])],
           [(''Attributes'',
              [\<lparr>prop_name = ''Attributes'', prop_data_type = ''not in bSDD'',
                prop_definition = ''''\<rparr>])],
           [(''Attributes'',
              [\<lparr>prop_name = ''Attributes'', prop_data_type = ''not in bSDD'',
                prop_definition = ''''\<rparr>])]] \<and>
   (\<exists>out. fetch_ifc_data 4 cycle_api ''Root'' = Some out \<and>
      (\<forall>obj\<in>set out. obj_properties obj \<noteq> []))"
proof -
  have run: "map_option (map obj_properties) (fetch_ifc_data 4 cycle_api ''Root'') =
     Some [[(''Attributes'',
              [\<lparr>prop_name = ''Attributes'', prop_data_type = ''not in bSDD'',
                prop_definition = ''''\<rparr>])],
           [(''Attributes'',
              [\<lparr>prop_name = ''GlobalId'', prop_data_type = ''String'',
                prop_definition = ''''\<rparr>])],
           [(''Attributes'',
              [\<lparr>prop_name = ''Attributes'', prop_data_type = ''not in bSDD'',
                prop_definition = ''''\<rparr>])],
           [(''Attributes'',
              [\<lparr>prop_name = ''Attributes'', prop_data_type = ''not in bSDD'',
                prop_definition = ''''\<rparr>])]]"
    by (simp add: api_simps eval_nat_numeral)
  then obtain out where out: "fetch_ifc_data 4 cycle_api ''Root'' = Some out"
    by blast
  from api_records_have_properties [of 4 cycle_api "''Root''" out] out run
  show ?thesis by blast
qed

end
